theory Spec2Isabelle
  imports Main "HOL-Library.Word" "HOL-Library.Sublist"
begin

section \<open>ethq: per-queue NIC statistics (src/ethq.cc)\<close>

text \<open>
  A shallow embedding of \<^verbatim>\<open>src/ethq.cc\<close>: the counter-name matcher and queue map
  builder (\<^verbatim>\<open>build_queue_map\<close>), the projection of a raw counter array
  (\<^verbatim>\<open>get_stats\<close>), the delta computation (\<^verbatim>\<open>get_deltas\<close>) and the startup
  sequence (\<^verbatim>\<open>handleArgs\<close>, \<^verbatim>\<open>run\<close>, \<^verbatim>\<open>main\<close>).

  Conventions of the embedding:
  \<^item> \<^verbatim>\<open>uint64_t\<close> and \<^verbatim>\<open>size_t\<close> values that take part in arithmetic are
    \<open>64 word\<close>, \<^verbatim>\<open>uint8_t\<close> is \<open>8 word\<close>; positions in a vector or a
    string are \<open>nat\<close> (they are below the container's size);
  \<^item> a \<^verbatim>\<open>std::vector\<close> is the list of its \<^verbatim>\<open>size()\<close> elements; indexing is
    checked against the size, and an access outside it (undefined behaviour in C++,
    no exception) is the error \<open>OutOfBounds\<close>;
  \<^item> a C++ exception is the error \<open>Thrown\<close>;
  \<^item> the \<^verbatim>\<open>Ethtool\<close> class is not part of the sources: the name list it returns
    (\<^verbatim>\<open>stringset(ETH_SS_STATS)\<close>) and the counter arrays (\<^verbatim>\<open>stats()\<close>) are
    parameters, and its own failures are outside the model, as are those of the
    curses library.
\<close>

subsection \<open>Errors\<close>

datatype exn =
    RuntimeError string   \<comment> \<open>\<^verbatim>\<open>std::runtime_error(msg)\<close>\<close>
  | InvalidArgument       \<comment> \<open>\<^verbatim>\<open>std::invalid_argument\<close>, thrown by \<^verbatim>\<open>std::stoi\<close>\<close>
  | OutOfRange            \<comment> \<open>\<^verbatim>\<open>std::out_of_range\<close>, thrown by \<^verbatim>\<open>std::stoi\<close>\<close>
  | LengthError string    \<comment> \<open>\<^verbatim>\<open>std::length_error\<close>, thrown by \<^verbatim>\<open>std::vector\<close>\<close>

datatype buffer = RawBuf | ResultsBuf | CountsBuf | StatsBuf | PrevBuf | DeltaBuf

datatype error =
    Thrown exn            \<comment> \<open>an exception propagates out of the function\<close>
  | OutOfBounds buffer    \<comment> \<open>an unchecked access outside the named container\<close>

text \<open>\<^verbatim>\<open>e.what()\<close>, as the GNU C++ library sets it: the exceptions of \<^verbatim>\<open>std::stoi\<close>
  carry the function's name.\<close>

fun what :: "exn \<Rightarrow> string" where
  "what (RuntimeError msg) = msg"
| "what InvalidArgument = ''stoi''"
| "what OutOfRange = ''stoi''"
| "what (LengthError msg) = msg"

subsection \<open>Strings\<close>

text \<open>
  \<^verbatim>\<open>s.find(pat, pos)\<close>: the first position \<open>\<ge> pos\<close> at which \<open>pat\<close> occurs,
  \<open>None\<close> for \<^verbatim>\<open>npos\<close>.  \<^verbatim>\<open>s.find(c, pos)\<close> for a character is the same search
  for the one-character string.
\<close>

fun find_sub :: "string \<Rightarrow> string \<Rightarrow> nat option" where
  "find_sub pat [] = (if pat = [] then Some 0 else None)"
| "find_sub pat (c # s) =
     (if prefix pat (c # s) then Some 0 else map_option Suc (find_sub pat s))"

definition str_find :: "string \<Rightarrow> string \<Rightarrow> nat \<Rightarrow> nat option" where
  "str_find s pat pos =
     (if length s < pos then None
      else map_option (\<lambda>k. pos + k) (find_sub pat (drop pos s)))"

text \<open>\<^verbatim>\<open>s.substr(pos, len)\<close> and \<^verbatim>\<open>s.substr(pos)\<close>, for \<open>pos \<le> length s\<close>
  (every call of the program satisfies it, so the \<^verbatim>\<open>out_of_range\<close> of
  \<^verbatim>\<open>substr\<close> cannot occur).\<close>

definition substr :: "string \<Rightarrow> nat \<Rightarrow> nat \<Rightarrow> string" where
  "substr s pos len = take len (drop pos s)"

definition substr_from :: "string \<Rightarrow> nat \<Rightarrow> string" where
  "substr_from s pos = drop pos s"

subsection \<open>\<^verbatim>\<open>std::stoi\<close>\<close>

text \<open>
  \<^verbatim>\<open>std::stoi(str, &idx)\<close> is \<^verbatim>\<open>strtol\<close> in base 10 followed by a range check:
  leading white space is skipped, one sign is accepted, then the longest run of
  decimal digits is read.  No digit: \<^verbatim>\<open>std::invalid_argument\<close>.  A value outside
  \<^verbatim>\<open>int\<close>: \<^verbatim>\<open>std::out_of_range\<close>.  Otherwise the value, and in \<open>idx\<close> the number
  of characters consumed.  White space is that of the C locale.
\<close>

definition is_space :: "char \<Rightarrow> bool" where
  "is_space c = (c \<in> set [CHR '' '', CHR 0x09, CHR 0x0A, CHR 0x0B, CHR 0x0C, CHR 0x0D])"

definition is_digit :: "char \<Rightarrow> bool" where
  "is_digit c = (c \<in> set ''0123456789'')"

definition digit_val :: "char \<Rightarrow> nat" where
  "digit_val c = of_char c - 48"

fun decimal :: "nat \<Rightarrow> string \<Rightarrow> nat" where
  "decimal acc [] = acc"
| "decimal acc (c # cs) = decimal (10 * acc + digit_val c) cs"

definition INT_MAX :: int where
  "INT_MAX = 2147483647"

definition INT_MIN :: int where
  "INT_MIN = - 2147483648"

definition stoi :: "string \<Rightarrow> error + (int \<times> nat)" where
  "stoi str =
     (let ws = takeWhile is_space str;
          r1 = dropWhile is_space str;
          neg = (r1 \<noteq> [] \<and> hd r1 = CHR ''-'');
          signed = (r1 \<noteq> [] \<and> (hd r1 = CHR ''-'' \<or> hd r1 = CHR ''+''));
          r2 = (if signed then tl r1 else r1);
          ds = takeWhile is_digit r2;
          v = (if neg then - int (decimal 0 ds) else int (decimal 0 ds))
      in if ds = [] then Inl (Thrown InvalidArgument)
         else if v < INT_MIN \<or> INT_MAX < v then Inl (Thrown OutOfRange)
         else Inr (v, length ws + (if signed then 1 else 0) + length ds))"

subsection \<open>Data of the application\<close>

type_synonym u64 = "64 word"
type_synonym u8 = "8 word"

text \<open>\<^verbatim>\<open>queuestats_t\<close>: four counters, addressed as \<^verbatim>\<open>counts[0..3]\<close>.\<close>

datatype queuestats_t =
  Counts (tx_packets: u64) (rx_packets: u64) (tx_bytes: u64) (rx_bytes: u64)

definition zero_stats :: queuestats_t where
  "zero_stats = Counts 0 0 0 0"

text \<open>\<^verbatim>\<open>q.counts[j]\<close> read and written, for \<open>j < 4\<close> (callers check it).\<close>

definition counts_get :: "queuestats_t \<Rightarrow> nat \<Rightarrow> u64" where
  "counts_get q j =
     (if j = 0 then tx_packets q else if j = 1 then rx_packets q
      else if j = 2 then tx_bytes q else rx_bytes q)"

definition counts_set :: "queuestats_t \<Rightarrow> nat \<Rightarrow> u64 \<Rightarrow> queuestats_t" where
  "counts_set q j v =
     (if j = 0 then Counts v (rx_packets q) (tx_bytes q) (rx_bytes q)
      else if j = 1 then Counts (tx_packets q) v (tx_bytes q) (rx_bytes q)
      else if j = 2 then Counts (tx_packets q) (rx_packets q) v (rx_bytes q)
      else Counts (tx_packets q) (rx_packets q) (tx_bytes q) v)"

type_synonym stats_list_t = "queuestats_t list"

text \<open>\<^verbatim>\<open>queue_entry_t\<close>: index into the queue table, offset of the value within.\<close>

type_synonym queue_entry_t = "u64 \<times> u8"

text \<open>
  \<^verbatim>\<open>queue_map_t\<close> is a \<^verbatim>\<open>std::map\<close> from the position of a name to its entry: an
  association list ordered by key, which is the order a range-for visits it in.
  \<^verbatim>\<open>qmap[k] = v\<close> inserts the key at its place or overwrites its value.
\<close>

type_synonym queue_map_t = "(nat \<times> queue_entry_t) list"

fun qmap_assign :: "nat \<Rightarrow> queue_entry_t \<Rightarrow> queue_map_t \<Rightarrow> queue_map_t" where
  "qmap_assign k v [] = [(k, v)]"
| "qmap_assign k v (kv # m) =
     (if k < fst kv then (k, v) # kv # m
      else if k = fst kv then (k, v) # m
      else kv # qmap_assign k v m)"

text \<open>The members of \<^verbatim>\<open>EthQApp\<close> that the computation uses.\<close>

record app =
  qmap :: queue_map_t
  qcount :: u64
  prev :: stats_list_t
  delta :: stats_list_t
  total :: queuestats_t

text \<open>
  The constructor sets \<^verbatim>\<open>qcount(0)\<close>; the containers start empty; \<^verbatim>\<open>total\<close> is not
  initialised, so its first value is a parameter.
\<close>

definition EthQApp :: "queuestats_t \<Rightarrow> app" where
  "EthQApp t0 = \<lparr>qmap = [], qcount = 0, prev = [], delta = [], total = t0\<rparr>"

subsection \<open>\<^verbatim>\<open>build_queue_map\<close>\<close>

text \<open>
  The body of the loop for one name, without the two assignments: \<open>Inr None\<close> for
  each \<^verbatim>\<open>continue\<close>, \<open>Inr (Some (queue, offset))\<close> for an accepted name, \<open>Inl\<close>
  when \<^verbatim>\<open>std::stoi\<close> throws.  \<^verbatim>\<open>size_t queue = std::stoi(...)\<close> converts the
  \<^verbatim>\<open>int\<close> to 64 bits, sign extended.
\<close>

definition match_name :: "string \<Rightarrow> error + queue_entry_t option" where
  "match_name name =
     (let tx = (str_find name ''tx-'' 0 = Some 0);
          rx = (str_find name ''rx-'' 0 = Some 0)
      in if \<not> (rx \<or> tx) then Inr None
         else (case str_find name ''.'' 3 of
           None \<Rightarrow> Inr None
         | Some dot \<Rightarrow>
             (let tmp = substr name 3 (dot - 3)
              in (case stoi tmp of
                Inl e \<Rightarrow> Inl e
              | Inr (v, eon) \<Rightarrow>
                  (let queue = (word_of_int v :: u64)
                   in if eon < length tmp then Inr None
                      else (case str_find name ''_'' (dot + 3) of
                        None \<Rightarrow> Inr None
                      | Some under_pos \<Rightarrow>
                          (let type = substr_from name (under_pos + 1);
                               offset = (0 :: u8);
                               offset = (if rx then offset + 1 else offset);
                               offset = (if type = ''bytes'' then offset + 2 else offset)
                           in Inr (Some (queue, offset)))))))))"

text \<open>The loop, from position \<open>i\<close> over the names that remain.\<close>

fun build_from :: "nat \<Rightarrow> string list \<Rightarrow> app \<Rightarrow> error + app" where
  "build_from i [] st = Inr st"
| "build_from i (name # names) st =
     (case match_name name of
        Inl e \<Rightarrow> Inl e
      | Inr None \<Rightarrow> build_from (Suc i) names st
      | Inr (Some (queue, offset)) \<Rightarrow>
          build_from (Suc i) names
            (st\<lparr>qmap := qmap_assign i (queue, offset) (qmap st),
                qcount := max (queue + 1) (qcount st)\<rparr>))"

definition build_queue_map :: "string list \<Rightarrow> app \<Rightarrow> error + app" where
  "build_queue_map names st = build_from 0 names st"

subsection \<open>Vectors\<close>

text \<open>
  \<^verbatim>\<open>v[i]\<close>, checked against \<^verbatim>\<open>v.size()\<close>.  \<^verbatim>\<open>v.reserve(n)\<close> and the constructor
  \<^verbatim>\<open>vector(n)\<close> throw \<^verbatim>\<open>std::length_error\<close> above \<^verbatim>\<open>max_size()\<close>, which for the
  32-byte \<^verbatim>\<open>queuestats_t\<close> is \<open>(2^63 - 1) div 32\<close>; memory is otherwise taken to be
  available (\<^verbatim>\<open>std::bad_alloc\<close> is not modelled).  \<^verbatim>\<open>reserve\<close> changes the
  capacity only: the size and the elements stay as they are.
\<close>

definition vec_at :: "'a list \<Rightarrow> nat \<Rightarrow> 'a option" where
  "vec_at v i = (if i < length v then Some (v ! i) else None)"

definition max_size :: nat where
  "max_size = 288230376151711743"

definition vec_reserve :: "nat \<Rightarrow> 'a list \<Rightarrow> error + 'a list" where
  "vec_reserve n v =
     (if max_size < n then Inl (Thrown (LengthError ''vector::reserve'')) else Inr v)"

definition vec_sized :: "nat \<Rightarrow> error + stats_list_t" where
  "vec_sized n =
     (if max_size < n
      then Inl (Thrown (LengthError ''cannot create std::vector larger than max_size()''))
      else Inr (replicate n zero_stats))"

subsection \<open>\<^verbatim>\<open>get_stats\<close>\<close>

text \<open>
  The range-for over \<^verbatim>\<open>qmap\<close>: \<^verbatim>\<open>results[queue].counts[offset] = raw[id]\<close>, the
  right-hand side read first.
\<close>

fun project :: "queue_map_t \<Rightarrow> u64 list \<Rightarrow> stats_list_t \<Rightarrow> error + stats_list_t" where
  "project [] raw results = Inr results"
| "project ((idx, (queue, offset)) # m) raw results =
     (case vec_at raw idx of
        None \<Rightarrow> Inl (OutOfBounds RawBuf)
      | Some x \<Rightarrow>
          (case vec_at results (unat queue) of
             None \<Rightarrow> Inl (OutOfBounds ResultsBuf)
           | Some r \<Rightarrow>
               if 4 \<le> unat offset then Inl (OutOfBounds CountsBuf)
               else project m raw (results[unat queue := counts_set r (unat offset) x])))"

definition get_stats :: "app \<Rightarrow> u64 list \<Rightarrow> error + stats_list_t" where
  "get_stats st raw =
     (case vec_sized (unat (qcount st)) of
        Inl e \<Rightarrow> Inl e
      | Inr results \<Rightarrow> project (qmap st) raw results)"

subsection \<open>\<^verbatim>\<open>get_deltas\<close>\<close>

text \<open>The first loop: \<^verbatim>\<open>total.counts[j] = 0\<close> for \<open>j < 4\<close>.\<close>

function clear_loop :: "nat \<Rightarrow> queuestats_t \<Rightarrow> queuestats_t" where
  "clear_loop j t = (if j < 4 then clear_loop (Suc j) (counts_set t j 0) else t)"
  by pat_completeness auto
termination
  by (relation "measure (\<lambda>(j, t). 4 - j)") auto

text \<open>
  The body of the inner loop for queue \<open>i\<close> and slot \<open>j\<close>:
  \<^verbatim>\<open>int64_t d = stats[i].counts[j] - prev[i].counts[j]; delta[i].counts[j] = d;
  total.counts[j] += d\<close>.  The subtraction is that of \<^verbatim>\<open>uint64_t\<close>; the conversions
  to \<^verbatim>\<open>int64_t\<close> and back keep the 64 bits, so \<open>d\<close> is the word and \<open>sint d\<close>
  its value as \<^verbatim>\<open>int64_t\<close>.
\<close>

definition slot_step ::
  "nat \<Rightarrow> nat \<Rightarrow> stats_list_t \<Rightarrow> stats_list_t \<Rightarrow> stats_list_t \<times> queuestats_t
    \<Rightarrow> error + stats_list_t \<times> queuestats_t" where
  "slot_step i j stats prv dt =
     (case vec_at stats i of
        None \<Rightarrow> Inl (OutOfBounds StatsBuf)
      | Some s \<Rightarrow>
          (case vec_at prv i of
             None \<Rightarrow> Inl (OutOfBounds PrevBuf)
           | Some p \<Rightarrow>
               (let d = counts_get s j - counts_get p j
                in (case vec_at (fst dt) i of
                      None \<Rightarrow> Inl (OutOfBounds DeltaBuf)
                    | Some x \<Rightarrow>
                        Inr ((fst dt)[i := counts_set x j d],
                             counts_set (snd dt) j (counts_get (snd dt) j + d))))))"

function inner_loop ::
  "nat \<Rightarrow> nat \<Rightarrow> stats_list_t \<Rightarrow> stats_list_t \<Rightarrow> stats_list_t \<times> queuestats_t
    \<Rightarrow> error + stats_list_t \<times> queuestats_t" where
  "inner_loop i j stats prv dt =
     (if j < 4 then
        (case slot_step i j stats prv dt of
           Inl e \<Rightarrow> Inl e
         | Inr dt' \<Rightarrow> inner_loop i (Suc j) stats prv dt')
      else Inr dt)"
  by pat_completeness auto
termination
  by (relation "measure (\<lambda>(i, j, stats, prv, dt). 4 - j)") auto

function outer_loop ::
  "nat \<Rightarrow> nat \<Rightarrow> stats_list_t \<Rightarrow> stats_list_t \<Rightarrow> stats_list_t \<times> queuestats_t
    \<Rightarrow> error + stats_list_t \<times> queuestats_t" where
  "outer_loop i n stats prv dt =
     (if i < n then
        (case inner_loop i 0 stats prv dt of
           Inl e \<Rightarrow> Inl e
         | Inr dt' \<Rightarrow> outer_loop (Suc i) n stats prv dt')
      else Inr dt)"
  by pat_completeness auto
termination
  by (relation "measure (\<lambda>(i, n, stats, prv, dt). n - i)") auto

text \<open>\<^verbatim>\<open>std::swap(stats, prev)\<close> leaves the new sample in \<^verbatim>\<open>prev\<close>.\<close>

definition get_deltas :: "app \<Rightarrow> u64 list \<Rightarrow> error + app" where
  "get_deltas st raw =
     (case get_stats st raw of
        Inl e \<Rightarrow> Inl e
      | Inr stats \<Rightarrow>
          (case outer_loop 0 (unat (qcount st)) stats (prev st)
                  (delta st, clear_loop 0 (total st)) of
             Inl e \<Rightarrow> Inl e
           | Inr dt \<Rightarrow> Inr (st\<lparr>prev := stats, delta := fst dt, total := snd dt\<rparr>)))"

subsection \<open>\<^verbatim>\<open>handleArgs\<close>\<close>

text \<open>
  \<open>names\<close> is what \<^verbatim>\<open>ethtool->stringset(ETH_SS_STATS)\<close> returns for the interface
  \<^verbatim>\<open>argv[1]\<close>.
\<close>

definition handleArgs :: "nat \<Rightarrow> string list \<Rightarrow> app \<Rightarrow> error + app" where
  "handleArgs argc names st =
     (if argc \<noteq> 2 then Inl (Thrown (RuntimeError ''usage: ethq <interface>''))
      else (case build_queue_map names st of
              Inl e \<Rightarrow> Inl e
            | Inr st' \<Rightarrow>
                if qcount st' = 0 then Inl (Thrown (RuntimeError ''No NIC queues found''))
                else (case vec_reserve (unat (qcount st')) (delta st') of
                        Inl e \<Rightarrow> Inl e
                      | Inr d \<Rightarrow> Inr (st'\<lparr>delta := d\<rparr>))))"

subsection \<open>\<^verbatim>\<open>redraw\<close>, \<^verbatim>\<open>run\<close> and \<^verbatim>\<open>main\<close>\<close>

text \<open>
  \<^verbatim>\<open>redraw\<close> prints one row per queue from \<^verbatim>\<open>delta[i].counts\<close> and the row of
  totals, every number with \<^verbatim>\<open>%ld\<close>, that is as a signed 64-bit value.  A frame is
  the rows of numbers; the throughput line (floating point) is left out.
\<close>

type_synonym frame = "int list list \<times> int list"

definition row_of :: "queuestats_t \<Rightarrow> int list" where
  "row_of q = [sint (counts_get q 0), sint (counts_get q 1),
               sint (counts_get q 2), sint (counts_get q 3)]"

function rows_loop :: "nat \<Rightarrow> nat \<Rightarrow> stats_list_t \<Rightarrow> int list list \<Rightarrow> error + int list list" where
  "rows_loop i n dl rows =
     (if i < n then
        (case vec_at dl i of
           None \<Rightarrow> Inl (OutOfBounds DeltaBuf)
         | Some q \<Rightarrow> rows_loop (Suc i) n dl (rows @ [int i # row_of q]))
      else Inr rows)"
  by pat_completeness auto
termination
  by (relation "measure (\<lambda>(i, n, dl, rows). n - i)") auto

definition redraw :: "app \<Rightarrow> error + frame" where
  "redraw st =
     (case rows_loop 0 (unat (qcount st)) (delta st) [] of
        Inl e \<Rightarrow> Inl e
      | Inr rows \<Rightarrow> Inr (rows, row_of (total st)))"

text \<open>
  The polling loop.  One tick is the counter array that \<^verbatim>\<open>ethtool->stats()\<close> returns
  and the key waiting on standard input, if any.  The loop has no exit but the key
  \<^verbatim>\<open>q\<close> or \<^verbatim>\<open>Q\<close>: on a finite list of ticks that holds neither, the program is
  still \<open>Polling\<close> when the list ends.
\<close>

datatype ending =
    Exit int             \<comment> \<open>\<^verbatim>\<open>main\<close> returns the status\<close>
  | Undefined buffer     \<comment> \<open>an access outside a container happened\<close>
  | Polling              \<comment> \<open>the loop is waiting for the next tick\<close>

datatype status = Returned int | Failed error | Waiting

fun poll_loop :: "app \<Rightarrow> (u64 list \<times> char option) list \<Rightarrow> frame list \<Rightarrow> frame list \<times> status" where
  "poll_loop st [] fs = (fs, Waiting)"
| "poll_loop st ((raw, key) # ticks) fs =
     (case get_deltas st raw of
        Inl e \<Rightarrow> (fs, Failed e)
      | Inr st' \<Rightarrow>
          (case redraw st' of
             Inl e \<Rightarrow> (fs, Failed e)
           | Inr f \<Rightarrow>
               if key = Some CHR ''q'' \<or> key = Some CHR ''Q'' then (fs @ [f], Returned 0)
               else poll_loop st' ticks (fs @ [f])))"

definition run :: "app \<Rightarrow> u64 list \<Rightarrow> (u64 list \<times> char option) list \<Rightarrow> frame list \<times> status" where
  "run st raw0 ticks =
     (case get_stats st raw0 of
        Inl e \<Rightarrow> ([], Failed e)
      | Inr p \<Rightarrow> poll_loop (st\<lparr>prev := p\<rparr>) ticks [])"

text \<open>
  \<^verbatim>\<open>main\<close>: an exception that is a \<^verbatim>\<open>std::exception\<close> is reported on standard
  error and the status is \<^verbatim>\<open>EXIT_FAILURE\<close>.  The result records what was written to
  standard error, whether \<^verbatim>\<open>run\<close> was called, the frames drawn and how the process
  ended.
\<close>

text \<open>The value of \<^verbatim>\<open>EXIT_FAILURE\<close> in \<^verbatim>\<open><cstdlib>\<close> on Linux.\<close>

definition EXIT_FAILURE :: int where
  "EXIT_FAILURE = 1"

record result =
  stderr :: "string list"
  run_called :: bool
  frames :: "frame list"
  ending :: ending

definition report :: "bool \<Rightarrow> frame list \<Rightarrow> error \<Rightarrow> result" where
  "report called fs e =
     (case e of
        Thrown x \<Rightarrow>
          \<lparr>stderr = [''error: '' @ what x], run_called = called, frames = fs,
           ending = Exit EXIT_FAILURE\<rparr>
      | OutOfBounds b \<Rightarrow>
          \<lparr>stderr = [], run_called = called, frames = fs, ending = Undefined b\<rparr>)"

definition main ::
  "nat \<Rightarrow> string list \<Rightarrow> u64 list \<Rightarrow> (u64 list \<times> char option) list \<Rightarrow> queuestats_t \<Rightarrow> result" where
  "main argc names raw0 ticks t0 =
     (case handleArgs argc names (EthQApp t0) of
        Inl e \<Rightarrow> report False [] e
      | Inr st \<Rightarrow>
          (case run st raw0 ticks of
             (fs, Returned res) \<Rightarrow>
               \<lparr>stderr = [], run_called = True, frames = fs, ending = Exit res\<rparr>
           | (fs, Failed e) \<Rightarrow> report True fs e
           | (fs, Waiting) \<Rightarrow>
               \<lparr>stderr = [], run_called = True, frames = fs, ending = Polling\<rparr>))"

subsection \<open>Auxiliary functions of the proofs\<close>

text \<open>
  What the loop of \<^verbatim>\<open>build_queue_map\<close> adds to the map from position \<open>i\<close> on:
  the accepted names with their positions, in list order.
\<close>

fun entries_from :: "nat \<Rightarrow> string list \<Rightarrow> queue_map_t" where
  "entries_from i [] = []"
| "entries_from i (name # names) =
     (case match_name name of
        Inr (Some e) \<Rightarrow> (i, e) # entries_from (Suc i) names
      | _ \<Rightarrow> entries_from (Suc i) names)"

text \<open>The four differences of one queue, and their addition to the totals.\<close>

definition diff_stats :: "queuestats_t \<Rightarrow> queuestats_t \<Rightarrow> queuestats_t" where
  "diff_stats s p =
     Counts (tx_packets s - tx_packets p) (rx_packets s - rx_packets p)
            (tx_bytes s - tx_bytes p) (rx_bytes s - rx_bytes p)"

definition add_stats :: "queuestats_t \<Rightarrow> queuestats_t \<Rightarrow> queuestats_t" where
  "add_stats t d =
     Counts (tx_packets t + tx_packets d) (rx_packets t + rx_packets d)
            (tx_bytes t + tx_bytes d) (rx_bytes t + rx_bytes d)"

section \<open>Properties\<close>

subsection \<open>Strings and the matcher\<close>

lemmas match_defs = match_name_def str_find_def stoi_def substr_def substr_from_def
  is_space_def is_digit_def digit_val_def INT_MAX_def INT_MIN_def Let_def

lemma find_sub_zero: "find_sub pat s = Some 0 \<longleftrightarrow> prefix pat s"
  by (cases s) (auto split: if_splits)

lemma str_find_zero: "str_find name pat 0 = Some 0 \<longleftrightarrow> prefix pat name"
  by (simp add: str_find_def find_sub_zero)

lemma rx_tx_exclusive: "\<not> (prefix ''rx-'' name \<and> prefix ''tx-'' name)"
  by (auto simp: prefix_def)

lemma match_offset_lt4: "match_name name = Inr (Some (q, s)) \<Longrightarrow> unat s < 4"
  unfolding match_name_def Let_def
  by (auto split: if_splits option.splits sum.splits prod.splits)

text \<open>
  A queue field that starts with digits and goes on with another character is not
  consumed in full: when the digits fit an \<^verbatim>\<open>int\<close>, the name is skipped.
\<close>

lemma digit_not_space: "is_digit d \<Longrightarrow> \<not> is_space d \<and> d \<noteq> CHR ''-'' \<and> d \<noteq> CHR ''+''"
  by (auto simp: is_digit_def is_space_def)

lemma stoi_digits_then_text:
  assumes "ds \<noteq> []" and "\<forall>d \<in> set ds. is_digit d" and "\<not> is_digit c"
      and "int (decimal 0 ds) \<le> INT_MAX"
  shows "stoi (ds @ c # rest) = Inr (int (decimal 0 ds), length ds)"
proof -
  obtain d ds' where ds: "ds = d # ds'" using assms(1) by (cases ds) auto
  have d: "is_digit d" using assms(2) ds by simp
  note n = digit_not_space [OF d]
  have tw: "takeWhile is_digit (ds @ c # rest) = ds"
    using assms(2,3) by (simp add: takeWhile_append2)
  have "takeWhile is_digit (d # ds' @ c # rest) = d # ds'"
    using tw ds by simp
  moreover have "INT_MIN \<le> int (decimal 0 ds)" by (simp add: INT_MIN_def)
  ultimately show ?thesis
    using n assms(4) ds by (simp add: stoi_def Let_def not_less)
qed

lemma trailing_text_rejected:
  assumes "prefix ''rx-'' name \<or> prefix ''tx-'' name"
      and "str_find name ''.'' 3 = Some dot"
      and "substr name 3 (dot - 3) = ds @ c # rest"
      and "ds \<noteq> []" and "\<forall>d \<in> set ds. is_digit d" and "\<not> is_digit c"
      and "int (decimal 0 ds) \<le> INT_MAX"
  shows "match_name name = Inr None"
  using assms(1-3) stoi_digits_then_text [OF assms(4-7), of rest]
  by (auto simp: match_name_def Let_def str_find_zero)

lemma scenario4: "match_name ''rx-2x.rx_bytes'' = Inr None"
  by (simp add: match_defs)

subsection \<open>The queue map\<close>

lemma qmap_assign_append:
  "\<forall>kv \<in> set m. fst kv < k \<Longrightarrow> qmap_assign k v m = m @ [(k, v)]"
  by (induction m) auto

lemma entries_from_keys:
  "kv \<in> set (entries_from i names) \<Longrightarrow> i \<le> fst kv \<and> fst kv < i + length names"
  by (induction names arbitrary: i) (fastforce split: sum.splits option.splits)+

lemma entries_from_iff:
  "(k, e) \<in> set (entries_from i names) \<longleftrightarrow>
     (i \<le> k \<and> k < i + length names \<and> match_name (names ! (k - i)) = Inr (Some e))"
proof (induction names arbitrary: i)
  case Nil
  then show ?case by simp
next
  case (Cons n ns)
  have step: "(k, e) \<in> set (entries_from (Suc i) ns) \<longleftrightarrow>
     (Suc i \<le> k \<and> k < Suc i + length ns \<and> match_name (ns ! (k - Suc i)) = Inr (Some e))"
    by (rule Cons.IH)
  show ?case
  proof (cases "k = i")
    case True
    then show ?thesis
      using entries_from_keys [of "(k, e)" "Suc i" ns]
      by (auto split: sum.splits option.splits)
  next
    case False
    then have "(n # ns) ! (k - i) = ns ! (k - Suc i)" if "i \<le> k"
    proof -
      from that False have "k - i = Suc (k - Suc i)" by arith
      then show ?thesis by simp
    qed
    with False show ?thesis
      using step by (auto split: sum.splits option.splits)
  qed
qed

lemma entries_from_sorted:
  "sorted_wrt (\<lambda>a b. fst a < fst b) (entries_from i names)"
proof (induction names arbitrary: i)
  case Nil
  then show ?case by simp
next
  case (Cons n ns)
  have "i < fst kv" if "kv \<in> set (entries_from (Suc i) ns)" for kv
    using entries_from_keys [OF that] by simp
  with Cons.IH [of "Suc i"] show ?case
    by (auto split: sum.splits option.splits)
qed

lemma build_from_ok:
  assumes "\<forall>n \<in> set names. \<exists>r. match_name n = Inr r"
      and "\<forall>kv \<in> set (qmap st). fst kv < i"
  shows "\<exists>st'. build_from i names st = Inr st' \<and>
           qmap st' = qmap st @ entries_from i names \<and>
           qcount st' = fold (\<lambda>kv c. max (fst (snd kv) + 1) c) (entries_from i names) (qcount st) \<and>
           prev st' = prev st \<and> delta st' = delta st \<and> total st' = total st"
  using assms
proof (induction names arbitrary: i st)
  case Nil
  then show ?case by simp
next
  case (Cons n ns)
  from Cons.prems obtain r where r: "match_name n = Inr r" by auto
  have ns: "\<forall>n \<in> set ns. \<exists>r. match_name n = Inr r" using Cons.prems by simp
  show ?case
  proof (cases r)
    case None
    have "\<forall>kv \<in> set (qmap st). fst kv < Suc i" using Cons.prems(2) by auto
    from Cons.IH [OF ns this] r None show ?thesis by simp
  next
    case (Some e)
    obtain q s where e: "e = (q, s)" by (cases e)
    let ?st = "st\<lparr>qmap := qmap_assign i (q, s) (qmap st), qcount := max (q + 1) (qcount st)\<rparr>"
    have app: "qmap ?st = qmap st @ [(i, (q, s))]"
      using Cons.prems(2) by (simp add: qmap_assign_append)
    then have "\<forall>kv \<in> set (qmap ?st). fst kv < Suc i"
      using Cons.prems(2) by auto
    from Cons.IH [OF ns this] r Some e app show ?thesis by simp
  qed
qed

lemma build_from_error:
  "build_from i names st = Inr st' \<Longrightarrow> n \<in> set names \<Longrightarrow> \<exists>r. match_name n = Inr r"
  by (induction names arbitrary: i st) (auto split: sum.splits option.splits)

lemma build_from_frame:
  "build_from i names st = Inr st' \<Longrightarrow>
     prev st' = prev st \<and> delta st' = delta st \<and> total st' = total st"
  by (induction names arbitrary: i st) (auto split: sum.splits option.splits)

lemma handleArgs_Inr:
  assumes "handleArgs argc names st0 = Inr st"
  shows "argc = 2 \<and> build_queue_map names st0 = Inr st \<and> qcount st \<noteq> 0 \<and>
         unat (qcount st) \<le> max_size"
  using assms
  by (auto simp: handleArgs_def vec_reserve_def split: if_splits sum.splits)

text \<open>
  The queue count after the loop, when no accepted queue index is \<open>2^64 - 1\<close> (the
  index that the queue field \<^verbatim>\<open>-1\<close> gives): one plus the largest index, and 0 when no
  name was accepted.
\<close>

lemma unat_succ: "q + 1 \<noteq> (0 :: u64) \<Longrightarrow> unat (q + 1) = Suc (unat q)"
  using unatSuc [of q] by (simp add: add.commute)

lemma max_succ:
  assumes "a + 1 \<noteq> (0 :: u64)" and "b + 1 \<noteq> 0"
  shows "max (a + 1) (b + 1) = max a b + 1"
proof -
  have "a + 1 \<le> b + 1 \<longleftrightarrow> a \<le> b"
    using assms by (simp add: word_le_nat_alt unat_succ)
  then show ?thesis by (simp add: max_def)
qed

lemma fold_max_is_Max:
  assumes "\<forall>kv \<in> set es. fst (snd kv) + 1 \<noteq> (0 :: u64)" and "es \<noteq> []"
  shows "fold (\<lambda>kv c. max (fst (snd kv) + 1) c) es c =
           max c (Max (set (map (\<lambda>kv. fst (snd kv)) es)) + 1)"
  using assms
proof (induction es arbitrary: c)
  case Nil
  then show ?case by simp
next
  case (Cons e es)
  let ?q = "fst (snd e)"
  show ?case
  proof (cases "es = []")
    case True
    then show ?thesis by (simp add: max.commute)
  next
    case False
    let ?S = "set (map (\<lambda>kv. fst (snd kv)) es)"
    have fin: "finite ?S" and ne: "?S \<noteq> {}" using False by simp_all
    have "Max ?S \<in> ?S" using fin ne by (rule Max_in)
    then have M: "Max ?S + 1 \<noteq> 0" using Cons.prems(1) by auto
    have q: "?q + 1 \<noteq> 0" using Cons.prems(1) by simp
    have rest: "\<forall>kv \<in> set es. fst (snd kv) + 1 \<noteq> 0" using Cons.prems(1) by simp
    have "fold (\<lambda>kv c. max (fst (snd kv) + 1) c) (e # es) c =
            max (max (?q + 1) c) (Max ?S + 1)"
      using Cons.IH [OF rest False] by simp
    also have "\<dots> = max c (max (?q + 1) (Max ?S + 1))"
      by (simp only: max.assoc max.commute [of "?q + 1" c])
    also have "\<dots> = max c (max ?q (Max ?S) + 1)"
      by (simp only: max_succ [OF q M])
    also have "max ?q (Max ?S) = Max (set (map (\<lambda>kv. fst (snd kv)) (e # es)))"
      using fin ne by simp
    finally show ?thesis .
  qed
qed

lemma qcount_one_plus_max:
  assumes "build_queue_map names (EthQApp t0) = Inr st"
      and "\<forall>kv \<in> set (entries_from 0 names). fst (snd kv) + 1 \<noteq> 0"
  shows "qmap st = entries_from 0 names \<and>
         qcount st = (if entries_from 0 names = [] then 0
                      else Max (set (map (\<lambda>kv. fst (snd kv)) (entries_from 0 names))) + 1)"
proof -
  have ok: "\<forall>n \<in> set names. \<exists>r. match_name n = Inr r"
    using build_from_error [OF assms(1) [unfolded build_queue_map_def]] by blast
  from build_from_ok [OF ok, of "EthQApp t0" 0] assms(1)
  have m: "qmap st = entries_from 0 names"
    and c: "qcount st = fold (\<lambda>kv c. max (fst (snd kv) + 1) c) (entries_from 0 names) 0"
    by (auto simp: EthQApp_def build_queue_map_def)
  show ?thesis
  proof (cases "entries_from 0 names = []")
    case True
    with m c show ?thesis by simp
  next
    case False
    from fold_max_is_Max [OF assms(2) False, of 0] m c False show ?thesis by simp
  qed
qed

text \<open>
  Queue numbers that \<^verbatim>\<open>std::stoi\<close> read as non-negative are below \<open>2^31\<close>; for
  them \<^verbatim>\<open>queue + 1\<close> does not wrap, the queue count is above every queue index of
  the map and the vector of results can be created.
\<close>

lemma queue_succ:
  assumes "q < (2147483648 :: u64)"
  shows "q < q + 1" and "q + 1 \<le> 2147483648"
proof -
  have u: "unat q < 2147483648" using assms by (simp add: word_less_nat_alt)
  have "unat q + unat (1 :: u64) < 2 ^ LENGTH(64)" using u by simp
  then have s: "unat (q + 1) = unat q + 1"
    using unat_add_lem [of q 1] by simp
  show "q < q + 1" using s by (simp add: word_less_nat_alt)
  show "q + 1 \<le> 2147483648" using s u by (simp add: word_le_nat_alt)
qed

lemma fold_max_bounds:
  assumes "\<forall>kv \<in> set es. fst (snd kv) < (2147483648 :: u64)"
      and "c \<le> 2147483648"
  shows "fold (\<lambda>kv c. max (fst (snd kv) + 1) c) es c \<le> 2147483648 \<and>
         c \<le> fold (\<lambda>kv c. max (fst (snd kv) + 1) c) es c \<and>
         (\<forall>kv \<in> set es. fst (snd kv) < fold (\<lambda>kv c. max (fst (snd kv) + 1) c) es c)"
  using assms
proof (induction es arbitrary: c)
  case Nil
  then show ?case by simp
next
  case (Cons e es)
  let ?q = "fst (snd e)"
  let ?c = "max (?q + 1) c"
  let ?r = "fold (\<lambda>kv c. max (fst (snd kv) + 1) c) es ?c"
  have q: "?q < 2147483648" using Cons.prems(1) by simp
  have c': "?c \<le> 2147483648" using queue_succ(2) [OF q] Cons.prems(2) by simp
  have rest: "\<forall>kv \<in> set es. fst (snd kv) < 2147483648" using Cons.prems(1) by simp
  from Cons.IH [OF rest c'] have
    a: "?r \<le> 2147483648"
    and b: "?c \<le> ?r"
    and d: "\<forall>kv \<in> set es. fst (snd kv) < ?r"
    by simp_all
  have "?q < ?q + 1" by (rule queue_succ(1) [OF q])
  also have "?q + 1 \<le> ?c" by (rule max.cobounded1)
  also note b
  finally have e: "?q < ?r" .
  have "c \<le> ?c" by (rule max.cobounded2)
  then have f: "c \<le> ?r" using b by (rule order_trans)
  have fold: "fold (\<lambda>kv c. max (fst (snd kv) + 1) c) (e # es) c = ?r" by simp
  show ?case unfolding fold using a d e f by simp
qed

subsection \<open>The projection\<close>

lemma counts_get_set:
  "j < 4 \<Longrightarrow> j' < 4 \<Longrightarrow> counts_get (counts_set r j v) j' = (if j' = j then v else counts_get r j')"
  by (auto simp: counts_get_def counts_set_def)

lemma vec_at_Some: "vec_at v i = Some x \<longleftrightarrow> i < length v \<and> x = v ! i"
  by (auto simp: vec_at_def)

lemma vec_at_None: "vec_at v i = None \<longleftrightarrow> length v \<le> i"
  by (auto simp: vec_at_def)

lemma project_length: "project m raw res = Inr res' \<Longrightarrow> length res' = length res"
  by (induction m raw res rule: project.induct)
     (auto simp: vec_at_def split: if_splits)

lemma project_not_thrown: "project m raw res \<noteq> Inl (Thrown x)"
  by (induction m raw res rule: project.induct)
     (auto simp: vec_at_def split: if_splits)

lemma project_raw_in_bounds:
  "\<forall>kv \<in> set m. fst kv < length raw \<Longrightarrow> project m raw res \<noteq> Inl (OutOfBounds RawBuf)"
  by (induction m raw res rule: project.induct)
     (auto simp: vec_at_def split: if_splits)

lemma project_total:
  assumes "\<forall>kv \<in> set m. fst kv < length raw \<and> unat (fst (snd kv)) < length res \<and> unat (snd (snd kv)) < 4"
  shows "\<exists>res'. project m raw res = Inr res'"
  using assms
proof (induction m raw res rule: project.induct)
  case (1 raw results)
  then show ?case by simp
next
  case (2 idx queue offset m raw results)
  have a: "vec_at raw idx = Some (raw ! idx)"
    and b: "vec_at results (unat queue) = Some (results ! unat queue)"
    and c: "\<not> 4 \<le> unat offset"
    using "2.prems" by (auto simp: vec_at_def)
  let ?res = "results[unat queue := counts_set (results ! unat queue) (unat offset) (raw ! idx)]"
  have "\<forall>kv \<in> set m. fst kv < length raw \<and> unat (fst (snd kv)) < length ?res \<and> unat (snd (snd kv)) < 4"
    using "2.prems" by auto
  from "2.IH" [OF a b c this] a b c show ?case by simp
qed

lemma project_short_raw:
  "kv \<in> set m \<Longrightarrow> length raw \<le> fst kv \<Longrightarrow> \<exists>b. project m raw res = Inl (OutOfBounds b)"
  by (induction m raw res rule: project.induct)
     (auto simp: vec_at_def split: if_splits)

lemma project_preserve:
  assumes "project m raw res = Inr res'"
      and "\<forall>kv \<in> set m. snd kv \<noteq> (q, s)"
      and "unat s < 4"
  shows "counts_get (res' ! unat q) (unat s) = counts_get (res ! unat q) (unat s)"
  using assms
proof (induction m raw res rule: project.induct)
  case (1 raw results)
  then show ?case by simp
next
  case (2 idx queue offset m raw results)
  from "2.prems"(1) have a: "idx < length raw" and b: "unat queue < length results"
    and c: "\<not> 4 \<le> unat offset"
    by (auto simp: vec_at_def split: if_splits)
  let ?res = "results[unat queue := counts_set (results ! unat queue) (unat offset) (raw ! idx)]"
  have p: "project m raw ?res = Inr res'"
    using "2.prems"(1) a b c by (simp add: vec_at_def)
  have va: "vec_at raw idx = Some (raw ! idx)" and vb: "vec_at results (unat queue) = Some (results ! unat queue)"
    using a b by (simp_all add: vec_at_def)
  have ne: "(queue, offset) \<noteq> (q, s)" using "2.prems"(2) by auto
  have rest: "\<forall>kv \<in> set m. snd kv \<noteq> (q, s)" using "2.prems"(2) by auto
  have "counts_get (res' ! unat q) (unat s) = counts_get (?res ! unat q) (unat s)"
    using "2.IH" [OF va vb c p rest "2.prems"(3)] .
  also have "\<dots> = counts_get (results ! unat q) (unat s)"
  proof (cases "queue = q")
    case True
    with ne have "offset \<noteq> s" by simp
    then have "unat offset \<noteq> unat s" by (simp add: word_unat_eq_iff)
    with True b c "2.prems"(3) show ?thesis by (simp add: counts_get_set)
  next
    case False
    then have "unat queue \<noteq> unat q" by (simp add: word_unat_eq_iff)
    then show ?thesis by simp
  qed
  finally show ?case .
qed

lemma project_last:
  assumes "project m raw res = Inr res'"
      and "sorted_wrt (\<lambda>a b. fst a < fst b) m"
      and "(j, (q, s)) \<in> set m"
      and "\<forall>kv \<in> set m. j < fst kv \<longrightarrow> snd kv \<noteq> (q, s)"
  shows "counts_get (res' ! unat q) (unat s) = raw ! j \<and> j < length raw \<and> unat q < length res' \<and> unat s < 4"
  using assms
proof (induction m raw res rule: project.induct)
  case (1 raw results)
  then show ?case by simp
next
  case (2 idx queue offset m raw results)
  from "2.prems"(1) have a: "idx < length raw" and b: "unat queue < length results"
    and c: "\<not> 4 \<le> unat offset"
    by (auto simp: vec_at_def split: if_splits)
  let ?res = "results[unat queue := counts_set (results ! unat queue) (unat offset) (raw ! idx)]"
  have p: "project m raw ?res = Inr res'"
    using "2.prems"(1) a b c by (simp add: vec_at_def)
  have va: "vec_at raw idx = Some (raw ! idx)" and vb: "vec_at results (unat queue) = Some (results ! unat queue)"
    using a b by (simp_all add: vec_at_def)
  have sorted: "sorted_wrt (\<lambda>a b. fst a < fst b) m" and above: "\<forall>kv \<in> set m. idx < fst kv"
    using "2.prems"(2) by auto
  show ?case
  proof (cases "(j, (q, s)) \<in> set m")
    case True
    have "\<forall>kv \<in> set m. j < fst kv \<longrightarrow> snd kv \<noteq> (q, s)" using "2.prems"(4) by auto
    from "2.IH" [OF va vb c p sorted True this] show ?thesis .
  next
    case False
    with "2.prems"(3) have hd: "idx = j" "queue = q" "offset = s" by auto
    have rest: "\<forall>kv \<in> set m. snd kv \<noteq> (q, s)"
      using above "2.prems"(4) hd by auto
    have s4: "unat s < 4" using c hd by simp
    have "counts_get (res' ! unat q) (unat s) = counts_get (?res ! unat q) (unat s)"
      using project_preserve [OF p rest s4] .
    also have "\<dots> = raw ! j"
      using hd b s4 by (simp add: counts_get_set)
    finally show ?thesis
      using a b s4 hd project_length [OF p] by simp
  qed
qed

lemma get_stats_length: "get_stats st raw = Inr s \<Longrightarrow> length s = unat (qcount st)"
  by (auto simp: get_stats_def vec_sized_def split: if_splits dest: project_length)

lemma get_stats_prev [simp]: "get_stats (st\<lparr>prev := p\<rparr>) raw = get_stats st raw"
  by (simp add: get_stats_def split: sum.splits)

lemma startup_projects:
  assumes ok: "\<forall>n \<in> set names. \<exists>r. match_name n = Inr r"
      and nonneg: "\<forall>n \<in> set names. \<forall>e. match_name n = Inr (Some e) \<longrightarrow> fst e < 2147483648"
      and raw: "length names \<le> length raw"
  shows "\<exists>st res. build_queue_map names (EthQApp t0) = Inr st \<and>
           qmap st = entries_from 0 names \<and>
           get_stats st raw = Inr res \<and> length res = unat (qcount st)"
proof -
  let ?es = "entries_from 0 names"
  let ?f = "\<lambda>kv c. max (fst (snd kv) + 1) c"
  from build_from_ok [OF ok, of "EthQApp t0" 0] obtain st where
    b: "build_from 0 names (EthQApp t0) = Inr st"
    and m: "qmap st = ?es"
    and c: "qcount st = fold ?f ?es 0"
    by (auto simp: EthQApp_def)
  have small: "\<forall>kv \<in> set ?es. fst (snd kv) < 2147483648"
  proof
    fix kv assume "kv \<in> set ?es"
    then have "(fst kv, snd kv) \<in> set ?es" by simp
    then have "fst kv < length names" "match_name (names ! fst kv) = Inr (Some (snd kv))"
      using entries_from_iff [of "fst kv" "snd kv" 0 names] by simp_all
    with nonneg show "fst (snd kv) < 2147483648" by (metis nth_mem)
  qed
  from fold_max_bounds [OF small, of 0] c have
    le: "qcount st \<le> 2147483648" and lt: "\<forall>kv \<in> set ?es. fst (snd kv) < qcount st"
    by simp_all
  have size: "unat (qcount st) \<le> max_size"
    using le by (simp add: word_le_nat_alt max_size_def)
  have "\<forall>kv \<in> set (qmap st). fst kv < length raw \<and>
          unat (fst (snd kv)) < length (replicate (unat (qcount st)) zero_stats) \<and>
          unat (snd (snd kv)) < 4"
  proof
    fix kv assume kv: "kv \<in> set (qmap st)"
    then have "(fst kv, fst (snd kv), snd (snd kv)) \<in> set ?es" using m by simp
    then have k: "fst kv < length names"
      and mn: "match_name (names ! fst kv) = Inr (Some (fst (snd kv), snd (snd kv)))"
      using entries_from_iff [of "fst kv" "snd kv" 0 names] by simp_all
    have "fst (snd kv) < qcount st" using lt kv m by simp
    then have "unat (fst (snd kv)) < unat (qcount st)" by (simp add: word_less_nat_alt)
    with k raw match_offset_lt4 [OF mn]
    show "fst kv < length raw \<and>
          unat (fst (snd kv)) < length (replicate (unat (qcount st)) zero_stats) \<and>
          unat (snd (snd kv)) < 4" by simp
  qed
  from project_total [OF this] obtain res where
    p: "project (qmap st) raw (replicate (unat (qcount st)) zero_stats) = Inr res" by blast
  have g: "get_stats st raw = Inr res"
    using size p by (simp add: get_stats_def vec_sized_def)
  from b m g get_stats_length [OF g] show ?thesis
    by (auto simp: build_queue_map_def)
qed

subsection \<open>The delta loops\<close>

lemma clear_loop_zero: "clear_loop 0 t = zero_stats"
  by (simp add: counts_set_def zero_stats_def eval_nat_numeral)

lemma inner_loop_unsized:
  assumes "i < length stats" "i < length prv" "length dl \<le> i"
  shows "inner_loop i 0 stats prv (dl, t) = Inl (OutOfBounds DeltaBuf)"
  using assms by (simp add: slot_step_def vec_at_def)

lemma inner_loop_sized:
  assumes "i < length stats" "i < length prv" "i < length dl"
  shows "inner_loop i 0 stats prv (dl, t) =
           Inr (dl[i := diff_stats (stats ! i) (prv ! i)],
                add_stats t (diff_stats (stats ! i) (prv ! i)))"
proof -
  have s: "slot_step i j stats prv (d, u) =
             Inr (d[i := counts_set (d ! i) j (counts_get (stats ! i) j - counts_get (prv ! i) j)],
                  counts_set u j (counts_get u j + (counts_get (stats ! i) j - counts_get (prv ! i) j)))"
    if "length d = length dl" for j d u
    using assms that by (simp add: slot_step_def vec_at_def Let_def)
  show ?thesis
    by (simp add: s assms counts_set_def counts_get_def diff_stats_def add_stats_def)
qed

lemma outer_loop_unsized:
  assumes "i < n" "n \<le> length stats" "n \<le> length prv" "length dl \<le> i"
  shows "outer_loop i n stats prv (dl, t) = Inl (OutOfBounds DeltaBuf)"
  using assms by (subst outer_loop.simps) (simp add: inner_loop_unsized del: inner_loop.simps)

lemma outer_loop_sized:
  assumes "n \<le> length stats" "n \<le> length prv" "n \<le> length dl"
  shows "\<exists>dl' t'. outer_loop i n stats prv (dl, t) = Inr (dl', t') \<and>
           length dl' = length dl \<and>
           (\<forall>k < length dl. dl' ! k =
              (if i \<le> k \<and> k < n then diff_stats (stats ! k) (prv ! k) else dl ! k)) \<and>
           t' = fold (\<lambda>k u. add_stats u (diff_stats (stats ! k) (prv ! k))) [i..<n] t"
  using assms
proof (induction i n stats prv "(dl, t)" arbitrary: dl t rule: outer_loop.induct)
  case (1 i n stats prv)
  show ?case
  proof (cases "i < n")
    case False
    then show ?thesis by (subst outer_loop.simps) auto
  next
    case True
    let ?d = "diff_stats (stats ! i) (prv ! i)"
    have inner: "inner_loop i 0 stats prv (dl, t) = Inr (dl[i := ?d], add_stats t ?d)"
      using True "1.prems" by (intro inner_loop_sized) auto
    have len: "n \<le> length (dl[i := ?d])" using "1.prems" by simp
    from "1.hyps" [OF True inner "1.prems"(1,2) len]
    obtain dl' t' where
      o: "outer_loop (Suc i) n stats prv (dl[i := ?d], add_stats t ?d) = Inr (dl', t')"
      and l: "length dl' = length dl"
      and v: "\<forall>k < length dl. dl' ! k =
              (if Suc i \<le> k \<and> k < n then diff_stats (stats ! k) (prv ! k) else dl[i := ?d] ! k)"
      and t: "t' = fold (\<lambda>k u. add_stats u (diff_stats (stats ! k) (prv ! k))) [Suc i..<n] (add_stats t ?d)"
      by auto
    have "outer_loop i n stats prv (dl, t) = Inr (dl', t')"
      using True inner o by (subst outer_loop.simps) (simp del: inner_loop.simps)
    moreover have "\<forall>k < length dl. dl' ! k =
              (if i \<le> k \<and> k < n then diff_stats (stats ! k) (prv ! k) else dl ! k)"
    proof (intro allI impI)
      fix k assume k: "k < length dl"
      consider "k = i" | "Suc i \<le> k" | "k < i" by arith
      then show "dl' ! k = (if i \<le> k \<and> k < n then diff_stats (stats ! k) (prv ! k) else dl ! k)"
        using v k True by cases (simp_all add: nth_list_update)
    qed
    moreover have "t' = fold (\<lambda>k u. add_stats u (diff_stats (stats ! k) (prv ! k))) [i..<n] t"
      using t True by (simp add: upt_conv_Cons)
    ultimately show ?thesis using l by simp
  qed
qed

text \<open>
  What \<^verbatim>\<open>get_deltas\<close> computes when \<^verbatim>\<open>prev\<close> and \<^verbatim>\<open>delta\<close> hold \<^verbatim>\<open>qcount\<close>
  elements, so that every access is in bounds.
\<close>

lemma diff_stats_self: "diff_stats x x = zero_stats"
  by (simp add: diff_stats_def zero_stats_def)

lemma add_stats_zero: "add_stats t zero_stats = t"
  by (cases t) (simp add: add_stats_def zero_stats_def)

lemma counts_get_diff:
  "j < 4 \<Longrightarrow> counts_get (diff_stats s p) j = counts_get s j - counts_get p j"
  by (auto simp: counts_get_def diff_stats_def)

lemma get_deltas_sized:
  assumes "get_stats st raw = Inr cur"
      and "unat (qcount st) \<le> length (prev st)"
      and "unat (qcount st) \<le> length (delta st)"
  shows "\<exists>st'. get_deltas st raw = Inr st' \<and> prev st' = cur \<and>
           qmap st' = qmap st \<and> qcount st' = qcount st \<and>
           length (delta st') = length (delta st) \<and>
           (\<forall>i < unat (qcount st). delta st' ! i = diff_stats (cur ! i) (prev st ! i)) \<and>
           total st' = fold (\<lambda>k u. add_stats u (diff_stats (cur ! k) (prev st ! k)))
                         [0..<unat (qcount st)] zero_stats"
proof -
  have len: "unat (qcount st) \<le> length cur"
    using get_stats_length [OF assms(1)] by simp
  from outer_loop_sized [OF len assms(2,3), of 0 "clear_loop 0 (total st)"]
  obtain dl' t' where
    o: "outer_loop 0 (unat (qcount st)) cur (prev st) (delta st, clear_loop 0 (total st)) = Inr (dl', t')"
    and l: "length dl' = length (delta st)"
    and v: "\<forall>k < length (delta st). dl' ! k =
              (if 0 \<le> k \<and> k < unat (qcount st) then diff_stats (cur ! k) (prev st ! k)
               else delta st ! k)"
    and t: "t' = fold (\<lambda>k u. add_stats u (diff_stats (cur ! k) (prev st ! k)))
                   [0..<unat (qcount st)] (clear_loop 0 (total st))"
    by blast
  have "\<forall>i < unat (qcount st). dl' ! i = diff_stats (cur ! i) (prev st ! i)"
    using v assms(3) by auto
  with o l t assms(1) show ?thesis
    by (simp add: get_deltas_def clear_loop_zero del: clear_loop.simps)
qed

lemma fold_add_zero:
  "\<forall>k \<in> set ks. f k = zero_stats \<Longrightarrow> fold (\<lambda>k u. add_stats u (f k)) ks t = t"
  by (induction ks arbitrary: t) (simp_all add: add_stats_zero)

subsection \<open>A word read as \<^verbatim>\<open>int64_t\<close>\<close>

lemma mod_shift_down:
  fixes x m :: int
  assumes "m \<le> x" "x < 2 * m"
  shows "x mod m = x - m"
proof -
  have "x mod m = (x - m) mod m" by simp
  also have "\<dots> = x - m" using assms by (intro mod_pos_pos_trivial) simp_all
  finally show ?thesis .
qed

lemma mod_shift_up:
  fixes x m :: int
  assumes "- m \<le> x" "x < 0"
  shows "x mod m = x + m"
proof -
  have "x mod m = (x + m) mod m" by simp
  also have "\<dots> = x + m" using assms by (intro mod_pos_pos_trivial) simp_all
  finally show ?thesis .
qed

lemma sint64:
  "sint (w :: u64) = (if uint w < 9223372036854775808 then uint w else uint w - 18446744073709551616)"
proof -
  have s: "sint w = (uint w + 9223372036854775808) mod 18446744073709551616 - 9223372036854775808"
    by (simp add: sint_uint signed_take_bit_eq_take_bit_shift take_bit_eq_mod)
  have b: "0 \<le> uint w" "uint w < 18446744073709551616"
    using uint_lt2p [of w] by simp_all
  show ?thesis
  proof (cases "uint w < 9223372036854775808")
    case True
    with b have "(uint w + 9223372036854775808) mod 18446744073709551616 = uint w + 9223372036854775808"
      by (intro mod_pos_pos_trivial) simp_all
    with s True show ?thesis by simp
  next
    case False
    with b have "(uint w + 9223372036854775808) mod 18446744073709551616
                 = uint w + 9223372036854775808 - 18446744073709551616"
      using mod_shift_down [of 18446744073709551616 "uint w + 9223372036854775808"] by simp
    with s False show ?thesis by simp
  qed
qed

lemma uint_diff64:
  "uint (a - b :: u64) = (uint a - uint b) mod 18446744073709551616"
  by (simp add: uint_word_ariths)

lemma sint64_negative: "sint (w :: u64) < 0 \<longleftrightarrow> 9223372036854775808 \<le> uint w"
  using uint_lt2p [of w] by (simp add: sint64)

lemma diff_negative:
  assumes "a < b" and "uint b - uint a \<le> 9223372036854775808"
  shows "sint (a - b :: u64) < 0"
proof -
  have lt: "uint a < uint b" using assms(1) by (simp add: word_less_def)
  have b: "0 \<le> uint a" "uint b < 18446744073709551616" using uint_lt2p [of b] by simp_all
  have "(uint a - uint b) mod 18446744073709551616 = uint a - uint b + 18446744073709551616"
  proof (rule mod_shift_up)
    show "- 18446744073709551616 \<le> uint a - uint b" using b by linarith
    show "uint a - uint b < 0" using lt by linarith
  qed
  then show ?thesis using assms(2) by (simp add: sint64_negative uint_diff64)
qed

lemma diff_wraps_positive:
  assumes "a < b" and "9223372036854775808 < uint b - uint a"
  shows "0 < sint (a - b :: u64)"
proof -
  have lt: "uint a < uint b" using assms(1) by (simp add: word_less_def)
  have b: "0 \<le> uint a" "uint b < 18446744073709551616" using uint_lt2p [of b] by simp_all
  have "(uint a - uint b) mod 18446744073709551616 = uint a - uint b + 18446744073709551616"
  proof (rule mod_shift_up)
    show "- 18446744073709551616 \<le> uint a - uint b" using b by linarith
    show "uint a - uint b < 0" using lt by linarith
  qed
  moreover have "0 < uint a - uint b + 18446744073709551616" using b by linarith
  ultimately show ?thesis using assms(2) by (simp add: sint64 uint_diff64)
qed

section \<open>The claims\<close>

subsection \<open>The matcher and the queue map\<close>

text \<open>
  Claim C2 fails on the code.  \<^verbatim>\<open>std::stoi\<close> accepts a sign, so the queue field
  \<^verbatim>\<open>-1\<close> is accepted and becomes the queue index \<open>2^64 - 1\<close>, for which
  \<^verbatim>\<open>queue + 1\<close> wraps to 0.  With the names \<^verbatim>\<open>rx--1.rx_bytes\<close> and
  \<^verbatim>\<open>rx-0.rx_bytes\<close> both names are accepted, the largest queue index in the map is
  \<open>18446744073709551615\<close>, and the queue count is 1, which is not one plus that index.
  Whenever no accepted queue field is \<^verbatim>\<open>-1\<close> the count is one plus the largest
  index (lemma \<open>qcount_one_plus_max\<close>).
\<close>

theorem qcount_wraps_on_minus_one:
  "build_queue_map [''rx--1.rx_bytes'', ''rx-0.rx_bytes''] (EthQApp zero_stats) =
     Inr \<lparr>qmap = [(0, (18446744073709551615, 3)), (1, (0, 3))], qcount = 1,
          prev = [], delta = [], total = zero_stats\<rparr>"
  by (simp add: build_queue_map_def EthQApp_def match_defs)

text \<open>
  Claim C4: for every name that the matcher accepts, the offset is 1 for a name that
  starts with \<^verbatim>\<open>rx-\<close> and 0 for one that starts with \<^verbatim>\<open>tx-\<close> (exactly one of the
  two holds), plus 2 exactly when the text after the underscore is \<^verbatim>\<open>bytes\<close>; so it
  is one of 0, 1, 2, 3.  The underscore is the first one at or after the third
  character behind the dot.
\<close>

theorem slot_offset:
  assumes "match_name name = Inr (Some (queue, offset))"
  shows "\<exists>dot under_pos.
           str_find name ''.'' 3 = Some dot \<and>
           str_find name ''_'' (dot + 3) = Some under_pos \<and>
           (prefix ''rx-'' name \<noteq> prefix ''tx-'' name) \<and>
           offset = (if prefix ''rx-'' name then 1 else 0) +
                    (if substr_from name (under_pos + 1) = ''bytes'' then 2 else 0) \<and>
           offset \<in> {0, 1, 2, 3}"
  using assms rx_tx_exclusive [of name]
  unfolding match_name_def Let_def str_find_zero
  by (auto split: if_splits option.splits sum.splits prod.splits)

theorem slot_offset_witness:
  "match_name ''rx-2.rx_bytes'' = Inr (Some (2, 3)) \<and>
   (\<exists>dot under_pos.
      str_find ''rx-2.rx_bytes'' ''.'' 3 = Some dot \<and>
      str_find ''rx-2.rx_bytes'' ''_'' (dot + 3) = Some under_pos \<and>
      (prefix ''rx-'' ''rx-2.rx_bytes'' \<noteq> prefix ''tx-'' ''rx-2.rx_bytes'') \<and>
      (3 :: u8) = (if prefix ''rx-'' ''rx-2.rx_bytes'' then 1 else 0) +
          (if substr_from ''rx-2.rx_bytes'' (under_pos + 1) = ''bytes'' then 2 else 0) \<and>
      (3 :: u8) \<in> {0, 1, 2, 3})"
proof -
  have h: "match_name ''rx-2.rx_bytes'' = Inr (Some (2, 3))"
    by (simp add: match_defs)
  from h slot_offset [OF h] show ?thesis by (rule conjI)
qed

text \<open>
  Claim C6 fails on the code.  A name that starts with \<^verbatim>\<open>rx-\<close> or \<^verbatim>\<open>tx-\<close>, has a
  dot, and has no digit where the queue number should be makes \<^verbatim>\<open>std::stoi\<close> throw
  \<^verbatim>\<open>std::invalid_argument\<close>.  Nothing catches it in \<^verbatim>\<open>build_queue_map\<close>: the name
  is not skipped, the names after it are not processed, and \<^verbatim>\<open>main\<close> reports the
  error and exits with status 1.
\<close>

theorem stoi_exception_aborts_build:
  "build_queue_map [''rx-0.rx_bytes'', ''rx-csum.errors'', ''tx-0.tx_bytes''] (EthQApp zero_stats) =
     Inl (Thrown InvalidArgument) \<and>
   main 2 [''rx-0.rx_bytes'', ''rx-csum.errors'', ''tx-0.tx_bytes''] [] [] zero_stats =
     \<lparr>stderr = [''error: stoi''], run_called = False, frames = [], ending = Exit 1\<rparr>"
  by (simp add: main_def handleArgs_def report_def EXIT_FAILURE_def build_queue_map_def
      EthQApp_def match_defs)

text \<open>
  Claim C7 fails on the code.  The name \<^verbatim>\<open>rx-2x.rx_bytes\<close> of the specification is
  skipped (lemmas \<open>scenario4\<close> and \<open>trailing_text_rejected\<close>), but a queue field
  whose leading digits exceed
  \<^verbatim>\<open>INT_MAX\<close> makes \<^verbatim>\<open>std::stoi\<close> throw \<^verbatim>\<open>std::out_of_range\<close> before the test for
  trailing characters is reached: the name is a parse error, not a non-match.
\<close>

theorem trailing_text_after_large_number_throws:
  "match_name ''rx-2147483648x.rx_bytes'' = Inl (Thrown OutOfRange) \<and>
   build_queue_map [''rx-2147483648x.rx_bytes''] (EthQApp zero_stats) = Inl (Thrown OutOfRange)"
  by (simp add: build_queue_map_def match_defs)

text \<open>
  Claim C10: let no name make \<^verbatim>\<open>std::stoi\<close> throw, let the queue numbers be
  non-negative and the raw array at least as long as the name list.  If the names at
  positions \<open>i < j\<close> are both accepted with the same queue \<open>q\<close> and offset \<open>s\<close>,
  and no name after \<open>j\<close> is, then the map is built without error, it holds both
  entries, the projection completes, and slot \<open>s\<close> of queue \<open>q\<close> holds
  \<^verbatim>\<open>raw[j]\<close>: the later entry wins.
\<close>

theorem last_entry_wins:
  assumes ok: "\<forall>n \<in> set names. \<exists>r. match_name n = Inr r"
      and nonneg: "\<forall>n \<in> set names. \<forall>e. match_name n = Inr (Some e) \<longrightarrow> fst e < 2147483648"
      and raw: "length names \<le> length raw"
      and ij: "i < j" "j < length names"
      and mi: "match_name (names ! i) = Inr (Some (q, s))"
      and mj: "match_name (names ! j) = Inr (Some (q, s))"
      and last: "\<forall>k. j < k \<and> k < length names \<longrightarrow> match_name (names ! k) \<noteq> Inr (Some (q, s))"
  shows "\<exists>st res. build_queue_map names (EthQApp t0) = Inr st \<and>
           (i, (q, s)) \<in> set (qmap st) \<and> (j, (q, s)) \<in> set (qmap st) \<and>
           get_stats st raw = Inr res \<and>
           counts_get (res ! unat q) (unat s) = raw ! j"
proof -
  from startup_projects [OF ok nonneg raw, of t0] obtain st res where
    b: "build_queue_map names (EthQApp t0) = Inr st"
    and m: "qmap st = entries_from 0 names"
    and g: "get_stats st raw = Inr res"
    by blast
  have ei: "(i, (q, s)) \<in> set (qmap st)" and ej: "(j, (q, s)) \<in> set (qmap st)"
    using ij mi mj by (simp_all add: m entries_from_iff)
  from g obtain results where
    p: "project (qmap st) raw results = Inr res"
    by (auto simp: get_stats_def split: sum.splits)
  have later: "\<forall>kv \<in> set (qmap st). j < fst kv \<longrightarrow> snd kv \<noteq> (q, s)"
  proof (intro ballI impI)
    fix kv assume kv: "kv \<in> set (qmap st)" and gt: "j < fst kv"
    from kv have "(fst kv, snd kv) \<in> set (entries_from 0 names)" using m by simp
    then have "fst kv < length names" "match_name (names ! fst kv) = Inr (Some (snd kv))"
      using entries_from_iff [of "fst kv" "snd kv" 0 names] by simp_all
    with last gt show "snd kv \<noteq> (q, s)" by auto
  qed
  have sorted: "sorted_wrt (\<lambda>a b. fst a < fst b) (qmap st)"
    by (simp add: m entries_from_sorted)
  from project_last [OF p sorted ej later]
  have "counts_get (res ! unat q) (unat s) = raw ! j" by simp
  with b ei ej g show ?thesis by blast
qed

theorem last_entry_wins_witness:
  "match_name ''tx-0.tx_bytes'' = Inr (Some (0, 2)) \<and>
   match_name ''tx-0.rx_bytes'' = Inr (Some (0, 2)) \<and>
   match_name ''rx-0.rx_bytes'' = Inr (Some (0, 3)) \<and>
   (\<exists>st res.
      build_queue_map [''tx-0.tx_bytes'', ''tx-0.rx_bytes'', ''rx-0.rx_bytes'']
        (EthQApp zero_stats) = Inr st \<and>
      (0, (0, 2)) \<in> set (qmap st) \<and> (1, (0, 2)) \<in> set (qmap st) \<and>
      get_stats st [11, 22, 33] = Inr res \<and>
      counts_get (res ! unat (0 :: u64)) (unat (2 :: u8)) = 22)"
proof -
  let ?names = "[''tx-0.tx_bytes'', ''tx-0.rx_bytes'', ''rx-0.rx_bytes'']"
  have a: "match_name ''tx-0.tx_bytes'' = Inr (Some (0, 2))"
    and b: "match_name ''tx-0.rx_bytes'' = Inr (Some (0, 2))"
    and c: "match_name ''rx-0.rx_bytes'' = Inr (Some (0, 3))"
    by (simp_all add: match_defs)
  have ok: "\<forall>n \<in> set ?names. \<exists>r. match_name n = Inr r" using a b c by simp
  have nonneg: "\<forall>n \<in> set ?names. \<forall>e. match_name n = Inr (Some e) \<longrightarrow> fst e < 2147483648"
    using a b c by auto
  have raw: "length ?names \<le> length [11, 22, 33 :: u64]" by simp
  have ij: "(0 :: nat) < 1" "1 < length ?names" by simp_all
  have mi: "match_name (?names ! 0) = Inr (Some (0, 2))" using a by simp
  have mj: "match_name (?names ! 1) = Inr (Some (0, 2))" using b by simp
  have last: "\<forall>k. 1 < k \<and> k < length ?names \<longrightarrow> match_name (?names ! k) \<noteq> Inr (Some (0, 2))"
  proof (intro allI impI)
    fix k :: nat
    assume "1 < k \<and> k < length ?names"
    then have "k = 2" by auto
    then show "match_name (?names ! k) \<noteq> Inr (Some (0, 2))" using c by simp
  qed
  from last_entry_wins [OF ok nonneg raw ij mi mj last, of zero_stats] a b c
  show ?thesis by simp
qed

subsection \<open>Startup\<close>

text \<open>
  Claim C5: when the queue map is built and the queue count is zero, \<^verbatim>\<open>main\<close> writes
  the error \<^verbatim>\<open>No NIC queues found\<close> to standard error and returns
  \<^verbatim>\<open>EXIT_FAILURE\<close>, which is not zero; \<^verbatim>\<open>run\<close>, which holds the polling loop, is
  never called and no frame is drawn.
\<close>

theorem zero_queues_never_polls:
  assumes "build_queue_map names (EthQApp t0) = Inr st" and "qcount st = 0"
  shows "main 2 names raw0 ticks t0 =
           \<lparr>stderr = [''error: No NIC queues found''], run_called = False, frames = [],
            ending = Exit EXIT_FAILURE\<rparr> \<and> EXIT_FAILURE \<noteq> 0"
  using assms by (simp add: main_def handleArgs_def report_def EXIT_FAILURE_def)

theorem zero_queues_never_polls_witness:
  "build_queue_map [''link_down_events''] (EthQApp zero_stats) = Inr (EthQApp zero_stats) \<and>
   qcount (EthQApp zero_stats) = 0 \<and>
   main 2 [''link_down_events''] [5] [([6], None)] zero_stats =
     \<lparr>stderr = [''error: No NIC queues found''], run_called = False, frames = [],
      ending = Exit EXIT_FAILURE\<rparr> \<and> EXIT_FAILURE \<noteq> 0"
proof -
  have b: "build_queue_map [''link_down_events''] (EthQApp zero_stats) = Inr (EthQApp zero_stats)"
    by (simp add: build_queue_map_def match_defs)
  have q: "qcount (EthQApp zero_stats) = 0" by (simp add: EthQApp_def)
  from zero_queues_never_polls [OF b q, of "[5]" "[([6], None)]"] b q show ?thesis by simp
qed

subsection \<open>The raw array\<close>

text \<open>
  Claim C9 as stated fails: \<^verbatim>\<open>get_stats\<close> has no length check.  With a map whose
  highest position is 1 and an empty raw array, the projection reads \<^verbatim>\<open>raw[1]\<close>
  outside the array; no exception is thrown, \<^verbatim>\<open>main\<close> reports nothing.
\<close>

theorem short_raw_array_counterexample:
  "handleArgs 2 [''link_down_events'', ''rx-0.rx_bytes''] (EthQApp zero_stats) =
     Inr \<lparr>qmap = [(1, (0, 3))], qcount = 1, prev = [], delta = [], total = zero_stats\<rparr> \<and>
   length ([] :: u64 list) < 1 \<and>
   get_stats \<lparr>qmap = [(1, (0, 3))], qcount = 1, prev = [], delta = [], total = zero_stats\<rparr> [] =
     Inl (OutOfBounds RawBuf) \<and>
   main 2 [''link_down_events'', ''rx-0.rx_bytes''] [] [] zero_stats =
     \<lparr>stderr = [], run_called = True, frames = [], ending = Undefined RawBuf\<rparr>"
proof -
  let ?st = "\<lparr>qmap = [(1, (0, 3))], qcount = 1 :: u64, prev = [], delta = [], total = zero_stats\<rparr>"
  have h: "handleArgs 2 [''link_down_events'', ''rx-0.rx_bytes''] (EthQApp zero_stats) = Inr ?st"
    by (simp add: handleArgs_def vec_reserve_def max_size_def build_queue_map_def EthQApp_def match_defs)
  have g: "get_stats ?st [] = Inl (OutOfBounds RawBuf)"
    by (simp add: get_stats_def vec_sized_def max_size_def vec_at_def)
  have m: "main 2 [''link_down_events'', ''rx-0.rx_bytes''] [] [] zero_stats =
     \<lparr>stderr = [], run_called = True, frames = [], ending = Undefined RawBuf\<rparr>"
    using g by (simp add: main_def h run_def report_def)
  from h g m show ?thesis by simp
qed

text \<open>
  Claim C9, amended: after a successful startup \<^verbatim>\<open>get_stats\<close> throws nothing,
  whatever the length of the raw array: it makes no length check.  When every position
  recorded in the map is below the length of the raw array, the projection reads no
  position of the raw array out of bounds.
\<close>

theorem projection_unchecked:
  assumes "handleArgs argc names (EthQApp t0) = Inr st"
  shows "(\<forall>x. get_stats st raw \<noteq> Inl (Thrown x)) \<and>
         ((\<forall>kv \<in> set (qmap st). fst kv < length raw) \<longrightarrow>
            get_stats st raw \<noteq> Inl (OutOfBounds RawBuf))"
proof -
  have "unat (qcount st) \<le> max_size"
    using handleArgs_Inr [OF assms] by simp
  then show ?thesis
    using project_not_thrown project_raw_in_bounds
    by (auto simp: get_stats_def vec_sized_def)
qed

theorem projection_unchecked_witness:
  "handleArgs 2 [''link_down_events'', ''rx-0.rx_bytes''] (EthQApp zero_stats) =
     Inr \<lparr>qmap = [(1, (0, 3))], qcount = 1, prev = [], delta = [], total = zero_stats\<rparr> \<and>
   (1 :: nat) < length [5, 7 :: u64] \<and>
   get_stats \<lparr>qmap = [(1, (0, 3))], qcount = 1, prev = [], delta = [], total = zero_stats\<rparr> [5, 7]
     = Inr [Counts 0 0 0 7]"
proof -
  let ?st = "\<lparr>qmap = [(1, (0, 3))], qcount = 1 :: u64, prev = [], delta = [], total = zero_stats\<rparr>"
  have h: "handleArgs 2 [''link_down_events'', ''rx-0.rx_bytes''] (EthQApp zero_stats) = Inr ?st"
    by (simp add: handleArgs_def vec_reserve_def max_size_def build_queue_map_def EthQApp_def match_defs)
  have k: "\<forall>kv \<in> set (qmap ?st). fst kv < length [5, 7 :: u64]" by simp
  have g: "get_stats ?st [5, 7] = Inr [Counts 0 0 0 7]"
    by (simp add: get_stats_def vec_sized_def max_size_def vec_at_def zero_stats_def counts_set_def)
  from projection_unchecked [OF h, of "[5, 7]"] h k g show ?thesis by simp
qed

subsection \<open>The delta buffer\<close>

text \<open>
  Claim C1 fails on the code.  \<^verbatim>\<open>handleArgs\<close> calls \<^verbatim>\<open>delta.reserve(qcount)\<close>, which
  leaves the size of \<^verbatim>\<open>delta\<close> at 0.  After any successful startup, with \<^verbatim>\<open>prev\<close>
  set by \<^verbatim>\<open>run\<close> and a sample that projects without fault, the first write
  \<^verbatim>\<open>delta[0].counts[0] = d\<close> of \<^verbatim>\<open>get_deltas\<close> is outside the vector.
\<close>

theorem delta_write_out_of_bounds:
  assumes "handleArgs argc names (EthQApp t0) = Inr st"
      and "get_stats st raw0 = Inr p"
      and "get_stats st raw = Inr s"
  shows "delta st = [] \<and> 0 < unat (qcount st) \<and>
         get_deltas (st\<lparr>prev := p\<rparr>) raw = Inl (OutOfBounds DeltaBuf)"
proof -
  from handleArgs_Inr [OF assms(1)]
  have b: "build_queue_map names (EthQApp t0) = Inr st" and q: "qcount st \<noteq> 0" by simp_all
  from build_from_frame [OF b [unfolded build_queue_map_def]]
  have d: "delta st = []" by (simp add: EthQApp_def)
  from q have n: "0 < unat (qcount st)" by (simp add: unat_gt_0)
  have "outer_loop 0 (unat (qcount st)) s p ([], clear_loop 0 (total st)) =
          Inl (OutOfBounds DeltaBuf)"
    using n get_stats_length [OF assms(2)] get_stats_length [OF assms(3)]
    by (intro outer_loop_unsized) simp_all
  with d n assms(3) show ?thesis by (simp add: get_deltas_def)
qed

theorem delta_write_out_of_bounds_witness:
  "handleArgs 2 [''rx-0.rx_bytes''] (EthQApp zero_stats) =
     Inr \<lparr>qmap = [(0, (0, 3))], qcount = 1, prev = [], delta = [], total = zero_stats\<rparr> \<and>
   get_stats \<lparr>qmap = [(0, (0, 3))], qcount = 1, prev = [], delta = [], total = zero_stats\<rparr> [7] =
     Inr [Counts 0 0 0 7] \<and>
   get_stats \<lparr>qmap = [(0, (0, 3))], qcount = 1, prev = [], delta = [], total = zero_stats\<rparr> [9] =
     Inr [Counts 0 0 0 9] \<and>
   get_deltas \<lparr>qmap = [(0, (0, 3))], qcount = 1, prev = [Counts 0 0 0 7], delta = [],
               total = zero_stats\<rparr> [9] = Inl (OutOfBounds DeltaBuf)"
proof -
  let ?st = "\<lparr>qmap = [(0, (0, 3))], qcount = 1 :: u64, prev = [], delta = [], total = zero_stats\<rparr>"
  have h: "handleArgs 2 [''rx-0.rx_bytes''] (EthQApp zero_stats) = Inr ?st"
    by (simp add: handleArgs_def vec_reserve_def max_size_def build_queue_map_def EthQApp_def match_defs)
  have g7: "get_stats ?st [7] = Inr [Counts 0 0 0 7]"
    by (simp add: get_stats_def vec_sized_def max_size_def vec_at_def zero_stats_def counts_set_def)
  have g9: "get_stats ?st [9] = Inr [Counts 0 0 0 9]"
    by (simp add: get_stats_def vec_sized_def max_size_def vec_at_def zero_stats_def counts_set_def)
  from delta_write_out_of_bounds [OF h g7 g9] h g7 g9 show ?thesis by simp
qed

subsection \<open>The deltas\<close>

text \<open>
  Claim C3: let the raw array project without fault and let \<^verbatim>\<open>prev\<close> be that
  projection.  Then one call of \<^verbatim>\<open>get_deltas\<close> on the same raw array, writing into
  a \<^verbatim>\<open>delta\<close> vector that has room for \<^verbatim>\<open>qcount\<close> elements (the room that
  \<^verbatim>\<open>delta.reserve(qcount)\<close> asks for; that \<^verbatim>\<open>size()\<close> stays 0 is the matter of
  claim C1), completes and leaves every slot of every queue's delta at zero and every
  slot of the totals at zero, whatever \<^verbatim>\<open>delta\<close> and \<^verbatim>\<open>total\<close> held before.
\<close>

theorem round_trip_zero:
  assumes "get_stats st raw = Inr (prev st)"
      and "unat (qcount st) \<le> length (delta st)"
  shows "\<exists>st'. get_deltas st raw = Inr st' \<and>
           (\<forall>i < unat (qcount st). delta st' ! i = zero_stats \<and>
              (\<forall>j < 4. counts_get (delta st' ! i) j = 0)) \<and>
           total st' = zero_stats \<and> (\<forall>j < 4. counts_get (total st') j = 0)"
proof -
  have z: "counts_get zero_stats j = 0" for j
    by (simp add: counts_get_def zero_stats_def)
  have "unat (qcount st) \<le> length (prev st)"
    using get_stats_length [OF assms(1)] by simp
  from get_deltas_sized [OF assms(1) this assms(2)] obtain st' where
    g: "get_deltas st raw = Inr st'"
    and d: "\<forall>i < unat (qcount st). delta st' ! i = diff_stats (prev st ! i) (prev st ! i)"
    and t: "total st' = fold (\<lambda>k u. add_stats u (diff_stats (prev st ! k) (prev st ! k)))
                          [0..<unat (qcount st)] zero_stats"
    by blast
  have "\<forall>i < unat (qcount st). delta st' ! i = zero_stats"
    using d by (simp add: diff_stats_self)
  moreover have "total st' = zero_stats"
    using t by (simp add: diff_stats_self fold_add_zero)
  ultimately show ?thesis using g z by auto
qed

theorem round_trip_zero_witness:
  "get_stats \<lparr>qmap = [(0, (0, 2))], qcount = 1, prev = [Counts 0 0 7 0],
              delta = [Counts 9 9 9 9], total = Counts 5 5 5 5\<rparr> [7] = Inr [Counts 0 0 7 0] \<and>
   unat (1 :: u64) \<le> length [Counts 9 9 9 9] \<and>
   (\<exists>st'. get_deltas \<lparr>qmap = [(0, (0, 2))], qcount = 1, prev = [Counts 0 0 7 0],
              delta = [Counts 9 9 9 9], total = Counts 5 5 5 5\<rparr> [7] = Inr st' \<and>
      delta st' ! 0 = Counts 0 0 0 0 \<and> total st' = Counts 0 0 0 0)"
proof -
  let ?st = "\<lparr>qmap = [(0, (0, 2))], qcount = 1 :: u64, prev = [Counts 0 0 7 0],
              delta = [Counts 9 9 9 9], total = Counts 5 5 5 5\<rparr>"
  have g: "get_stats ?st [7] = Inr [Counts 0 0 7 0]"
    by (simp add: get_stats_def vec_sized_def max_size_def vec_at_def zero_stats_def counts_set_def)
  then have g': "get_stats ?st [7] = Inr (prev ?st)" by simp
  have l: "unat (qcount ?st) \<le> length (delta ?st)" by simp
  from round_trip_zero [OF g' l] obtain st' where
    "get_deltas ?st [7] = Inr st'" "delta st' ! 0 = zero_stats" "total st' = zero_stats"
    by auto
  with g show ?thesis by (auto simp: zero_stats_def)
qed

text \<open>
  Claim C8 as stated fails: a delta is not negative whenever the current value is below
  the previous one.  In a state with one queue whose \<^verbatim>\<open>delta\<close> vector holds one
  element, with the previous value \<open>2^64 - 1\<close> and the current value 0 (a counter that
  wrapped), the stored delta is 1.
\<close>

theorem delta_not_negative_counterexample:
  "get_deltas \<lparr>qmap = [(0, (0, 0))], qcount = 1, prev = [Counts 18446744073709551615 0 0 0],
               delta = [zero_stats], total = zero_stats\<rparr> [0] =
     Inr \<lparr>qmap = [(0, (0, 0))], qcount = 1, prev = [Counts 0 0 0 0],
          delta = [Counts 1 0 0 0], total = Counts 1 0 0 0\<rparr> \<and>
   (0 :: u64) < 18446744073709551615 \<and> \<not> sint (1 :: u64) < 0"
proof -
  let ?st = "\<lparr>qmap = [(0, (0, 0))], qcount = 1 :: u64, prev = [Counts 18446744073709551615 0 0 0],
               delta = [zero_stats], total = zero_stats\<rparr>"
  have g: "get_stats ?st [0] = Inr [Counts 0 0 0 0]"
    by (simp add: get_stats_def vec_sized_def max_size_def vec_at_def zero_stats_def counts_set_def)
  have i: "inner_loop 0 0 [Counts 0 0 0 0] [Counts 18446744073709551615 0 0 0]
             ([zero_stats], zero_stats) = Inr ([Counts 1 0 0 0], Counts 1 0 0 0)"
    by (subst inner_loop_sized) (simp_all add: diff_stats_def add_stats_def zero_stats_def)
  have o: "outer_loop 0 (Suc 0) [Counts 0 0 0 0] [Counts 18446744073709551615 0 0 0]
             ([zero_stats], zero_stats) = Inr ([Counts 1 0 0 0], Counts 1 0 0 0)"
    by (subst outer_loop.simps, simp add: i del: inner_loop.simps outer_loop.simps)
       (subst outer_loop.simps, simp)
  have "get_deltas ?st [0] = Inr \<lparr>qmap = [(0, (0, 0))], qcount = 1, prev = [Counts 0 0 0 0],
          delta = [Counts 1 0 0 0], total = Counts 1 0 0 0\<rparr>"
    unfolding get_deltas_def g using o by (simp add: clear_loop_zero del: clear_loop.simps)
  then show ?thesis by simp
qed

text \<open>
  Claim C8, amended: on a tick whose accesses are in bounds (\<^verbatim>\<open>prev\<close> and \<^verbatim>\<open>delta\<close>
  hold \<^verbatim>\<open>qcount\<close> elements), for every queue \<open>i\<close> and slot \<open>j\<close> the stored delta
  is the 64-bit difference \<open>c - p\<close> of the current and the previous value, that is
  \<open>(c - p) mod 2^64\<close>; read as \<^verbatim>\<open>int64_t\<close> (the \<^verbatim>\<open>d\<close> of the source, and what
  \<^verbatim>\<open>%ld\<close> prints) it is that number below \<open>2^63\<close> and that number minus \<open>2^64\<close>
  from there on, with no clamping.  It is negative when \<open>c < p\<close> and
  \<open>p - c \<le> 2^63\<close>.
\<close>

theorem delta_is_wrapping_difference:
  assumes "get_stats st raw = Inr cur"
      and "unat (qcount st) \<le> length (prev st)"
      and "unat (qcount st) \<le> length (delta st)"
      and "i < unat (qcount st)" and "j < 4"
      and "c = counts_get (cur ! i) j" and "p = counts_get (prev st ! i) j"
  shows "\<exists>st'. get_deltas st raw = Inr st' \<and>
           counts_get (delta st' ! i) j = c - p \<and>
           uint (c - p) = (uint c - uint p) mod 18446744073709551616 \<and>
           sint (c - p) = (if uint (c - p) < 9223372036854775808 then uint (c - p)
                           else uint (c - p) - 18446744073709551616) \<and>
           (c < p \<and> uint p - uint c \<le> 9223372036854775808 \<longrightarrow> sint (c - p) < 0)"
proof -
  from get_deltas_sized [OF assms(1-3)] obtain st' where
    g: "get_deltas st raw = Inr st'"
    and d: "\<forall>i < unat (qcount st). delta st' ! i = diff_stats (cur ! i) (prev st ! i)"
    by blast
  from d assms(4) have "delta st' ! i = diff_stats (cur ! i) (prev st ! i)" by simp
  then have "counts_get (delta st' ! i) j = c - p"
    using assms(5-7) by (simp add: counts_get_diff)
  with g show ?thesis
    using sint64 [of "c - p"] uint_diff64 [of c p] diff_negative [of c p] by blast
qed

theorem delta_is_wrapping_difference_witness:
  "get_stats \<lparr>qmap = [(0, (0, 0))], qcount = 1, prev = [Counts 150 0 0 0],
              delta = [zero_stats], total = zero_stats\<rparr> [100] = Inr [Counts 100 0 0 0] \<and>
   (\<exists>st'. get_deltas \<lparr>qmap = [(0, (0, 0))], qcount = 1, prev = [Counts 150 0 0 0],
              delta = [zero_stats], total = zero_stats\<rparr> [100] = Inr st' \<and>
      counts_get (delta st' ! 0) 0 = 100 - 150 \<and>
      (100 :: u64) < 150 \<and> sint (100 - 150 :: u64) = - 50)"
proof -
  let ?st = "\<lparr>qmap = [(0, (0, 0))], qcount = 1 :: u64, prev = [Counts 150 0 0 0],
              delta = [zero_stats], total = zero_stats\<rparr>"
  have g: "get_stats ?st [100] = Inr [Counts 100 0 0 0]"
    by (simp add: get_stats_def vec_sized_def max_size_def vec_at_def zero_stats_def counts_set_def)
  have c: "(100 :: u64) = counts_get ([Counts 100 0 0 0] ! 0) 0"
    and p: "(150 :: u64) = counts_get (prev ?st ! 0) 0"
    by (simp_all add: counts_get_def)
  have "\<exists>st'. get_deltas ?st [100] = Inr st' \<and> counts_get (delta st' ! 0) 0 = 100 - 150"
    using delta_is_wrapping_difference [OF g _ _ _ _ c p] by simp
  with g show ?thesis by simp
qed

end
